theory Spec2Isabelle
  imports Main "HOL-Library.Word" "HOL-Library.Multiset" "HOL-Library.Product_Lexorder"
begin

section \<open>The Miner of package ethminer (src/eth/bind.go, lines 208-424)\<close>

text \<open>
  The Miner is a Go struct whose methods run in several goroutines: the caller of
  \<open>Start\<close> and \<open>Stop\<close>, one \<open>listener\<close> per \<open>Start\<close>, and one goroutine per call of
  \<open>startMining\<close> that runs \<open>mineNewBlock\<close>. The model is a state record holding the
  struct's fields and the rest of the process state the methods touch (the channels made
  by \<open>make\<close>, the blocks behind the \<open>*chain.Block\<close> pointers, the goroutines), pure
  functions for the straight-line pieces of each method, and a step function that
  interleaves the goroutines at the points where the source can switch between them.
\<close>

subsection \<open>Data\<close>

type_synonym bytes = "nat list"
type_synonym chan = nat
type_synonym addr = nat

text \<open>
  A \<open>chain.Transaction\<close>, as far as the Miner reads it: \<open>Hash()\<close>, the sender
  (the address read as a number) and the \<open>uint64\<close> nonce that \<open>chain.TxByNonce\<close>
  orders by.
\<close>

record Transaction =
  txHash :: bytes
  txSender :: nat
  txNonce :: "64 word"

text \<open>
  A \<open>chain.Block\<close>. \<open>Hash\<close> and \<open>PrevHash\<close> are what \<open>Hash()\<close> and the field
  \<open>PrevHash\<close> give; \<open>State\<close> stands for the state object behind \<open>State()\<close>.
\<close>

datatype Block =
  Block (Hash: bytes) (PrevHash: bytes) (Coinbase: bytes) (Uncles: "Block list")
    (Transactions: "Transaction list") (Receipts: "nat list") (State: nat)
    (Nonce: "bytes option")

definition SetUncles :: "Block list \<Rightarrow> Block \<Rightarrow> Block" where
  "SetUncles us b =
     Block (Hash b) (PrevHash b) (Coinbase b) us (Transactions b) (Receipts b) (State b) (Nonce b)"

definition SetTransactions :: "Transaction list \<Rightarrow> Block \<Rightarrow> Block" where
  "SetTransactions ts b =
     Block (Hash b) (PrevHash b) (Coinbase b) (Uncles b) ts (Receipts b) (State b) (Nonce b)"

definition SetReceipts :: "nat list \<Rightarrow> Block \<Rightarrow> Block" where
  "SetReceipts rs b =
     Block (Hash b) (PrevHash b) (Coinbase b) (Uncles b) (Transactions b) rs (State b) (Nonce b)"

definition SetNonce :: "bytes \<Rightarrow> Block \<Rightarrow> Block" where
  "SetNonce n b =
     Block (Hash b) (PrevHash b) (Coinbase b) (Uncles b) (Transactions b) (Receipts b) (State b)
       (Some n)"

text \<open>The two events the listener subscribes to (line 274) and switches on (line 296).\<close>

datatype event = NewBlockEvent Block | TxPreEvent Transaction

text \<open>
  What \<open>EventMux().Post\<close> is called with: the Miner's own \<open>Event{Type, Miner}\<close>
  (lines 237-245: \<open>Started = iota\<close>, \<open>Stopped\<close>) and \<open>chain.NewBlockEvent\<close> (line 418).
\<close>

definition Started :: nat where
  "Started = 0"

definition Stopped :: nat where
  "Stopped = 1"

datatype post = Event nat | PostNewBlock Block

text \<open>
  A channel of type \<open>chan struct{}\<close> made by \<open>make\<close> (unbuffered). \<open>Open\<close>: no
  goroutine is sending on it; \<open>Offered\<close>: a goroutine stands ready to send a value;
  \<open>Closed\<close>: \<open>close\<close> was called on it.
\<close>

datatype chanstate = Open | Offered | Closed

text \<open>
  A call either returns, or never returns (a receive that no send or close ever
  answers), or panics (a nil dereference, \<open>close\<close> of a nil or closed channel).
\<close>

datatype 'a result = Returns 'a | Blocks | Panics

text \<open>
  A goroutine started by \<open>go miner.mineNewBlock()\<close> (line 358): not yet run; inside
  \<open>pow.Search\<close> (line 406) with the block pointer and the quit channel it passed, and
  the block as it was at that moment; or returned.
\<close>

datatype worker = Spawned | Searching addr "chan option" Block | Returned

text \<open>
  A goroutine started by \<open>go miner.listener()\<close> (line 278): not yet run; waiting in the
  \<open>select\<close> of line 294; or stuck for ever inside a call that does not return.
\<close>

datatype lstate = LSpawned | Waiting | Blocked

text \<open>The struct of lines 222-235 (the fields \<open>pow\<close> and \<open>ethereum\<close> are below).\<close>

record Miner =
  coinbase :: bytes
  txs :: "Transaction list"
  uncles :: "Block list"
  block :: "addr option"
  events :: "bool option"
  powQuitChan :: "chan option"
  powDone :: "chan option"
  turbo :: bool

text \<open>
  The process around the struct. \<open>events\<close> above is \<open>None\<close> for the nil interface,
  \<open>Some True\<close> for a live subscription and \<open>Some False\<close> after \<open>Unsubscribe\<close>.
  \<open>chans\<close> and \<open>heap\<close> hold what \<open>make\<close> and the block constructors allocated, at
  the index that serves as the pointer. \<open>pool\<close> and \<open>CurrentBlock\<close> are the state of
  \<open>ethereum.TxPool()\<close> and \<open>ethereum.ChainManager()\<close>.

  \<open>miner.txs\<close> is a slice. Line 393 can leave it on the backing array of the slice that
  line 395 gives to the block, so that the block's transactions are the first entries of
  the array of \<open>miner.txs\<close>, and a later write into that array (the in-place sort of
  line 381) is a write into the block. \<open>shared\<close> is the block that shares the array of
  \<open>miner.txs\<close> in this way, if there is one, and \<open>spare\<close> the room left in that array
  behind \<open>miner.txs\<close>. A slice that a collaborator returns is taken to have an array
  of its own, and \<open>SetTransactions\<close> to keep the slice it is given.
\<close>

record world = Miner +
  shared :: "addr option"
  spare :: nat
  chans :: "chanstate list"
  heap :: "Block list"
  workers :: "worker list"
  listeners :: "lstate list"
  pool :: "Transaction list"
  CurrentBlock :: Block
  posted :: "post list"
  broadcasts :: "Block list"
  debuglog :: "string list"
  panicked :: bool

text \<open>
  What \<open>StateManager().ProcessTransactions\<close> returns (line 388), and the block it worked
  on. \<open>p_spare\<close> is the capacity of the returned slice \<open>txs\<close> beyond its length.
\<close>

record processed =
  p_receipts :: "nat list"
  p_txs :: "Transaction list"
  p_spare :: nat
  p_unhandledTxs :: "Transaction list"
  p_erroneous :: "Transaction list"
  p_err :: "string option"
  p_block :: Block

text \<open>
  The collaborators behind \<open>chain.EthManager\<close>, whose code is not part of the file: each
  is a parameter. \<open>NewBlock\<close> takes the current head and the coinbase;
  \<open>ProcessTransactions\<close> the block (with the gas pool of lines 385-387 set from it) and
  the transactions; \<open>Flush\<close>, \<open>CurrentTransactions\<close> and \<open>RemoveSet\<close> act on the pool.
\<close>

record env =
  NewBlock :: "Block \<Rightarrow> bytes \<Rightarrow> Block"
  ProcessTransactions :: "Block \<Rightarrow> Transaction list \<Rightarrow> processed"
  AccumelateRewards :: "Block \<Rightarrow> Block"
  Update :: "Block \<Rightarrow> Block"
  Process :: "Block \<Rightarrow> string option"
  Undo :: "Block \<Rightarrow> Block"
  Flush :: "Transaction list \<Rightarrow> Transaction list \<times> Transaction list"
  CurrentTransactions :: "Transaction list \<Rightarrow> Transaction list"
  RemoveSet :: "Transaction list \<Rightarrow> Transaction list \<Rightarrow> Transaction list"

subsection \<open>Construction, Start and Stop\<close>

text \<open>
  \<open>NewDefaultMiner\<close> (lines 251-259): every field but \<open>coinbase\<close> is Go's zero value.
  The pool and the head are those of the \<open>ethereum\<close> argument.
\<close>

definition NewDefaultMiner :: "bytes \<Rightarrow> Transaction list \<Rightarrow> Block \<Rightarrow> world" where
  "NewDefaultMiner cb p h =
     \<lparr> coinbase = cb, txs = [], uncles = [], block = None, events = None,
       powQuitChan = None, powDone = None, turbo = False, shared = None, spare = 0,
       chans = [], heap = [], workers = [], listeners = [], pool = p, CurrentBlock = h,
       posted = [], broadcasts = [], debuglog = [], panicked = False \<rparr>"

text \<open>\<open>ToggleTurbo\<close> (lines 261-265); the engine's own copy of the flag is not modelled.\<close>

definition ToggleTurbo :: "world \<Rightarrow> world" where
  "ToggleTurbo w = w\<lparr>turbo := \<not> turbo w\<rparr>"

text \<open>
  \<open>Start\<close> (lines 267-282): takes the pool's transactions, allocates a block, subscribes,
  starts a listener goroutine and posts \<open>Started\<close>.
\<close>

definition Start :: "env \<Rightarrow> world \<Rightarrow> world" where
  "Start e w =
     w\<lparr> txs := fst (Flush e (pool w)),
        shared := None,
        spare := 0,
        pool := snd (Flush e (pool w)),
        heap := heap w @ [NewBlock e (CurrentBlock w) (coinbase w)],
        block := Some (length (heap w)),
        events := Some True,
        listeners := listeners w @ [LSpawned],
        posted := posted w @ [Event Started] \<rparr>"

text \<open>
  \<open>Stop\<close> (lines 284-288): unsubscribes and posts \<open>Stopped\<close>. On a Miner that was never
  started \<open>miner.events\<close> is the nil interface and the method call panics.
  \<open>Unsubscribe\<close> on a subscription that was ended before is taken to return and to
  change nothing. \<open>Post\<close> is taken to return at once; the notification is recorded.
\<close>

definition Stop :: "world \<Rightarrow> world result" where
  "Stop w =
     (case events w of
        None \<Rightarrow> Panics
      | Some s \<Rightarrow> Returns (w\<lparr> events := Some False, posted := posted w @ [Event Stopped] \<rparr>))"

subsection \<open>Channels\<close>

text \<open>
  The file makes two kinds of channel (lines 355 and 357), receives from them (lines 347
  and 363) and closes one (line 365); it has no send statement. \<open>pow.Search\<close> gets
  \<open>powQuitChan\<close> as its stop signal (line 406) and listens on it.

  \<open>v, ok := <-c\<close>. On a nil channel, and on an open channel while nobody sends on it,
  the receive does not return; with a sender ready it returns \<open>ok = true\<close>; on a closed
  channel it returns \<open>ok = false\<close> at once. A channel that was never made has no
  pointer to it; the model lets a receive on such an index wait as well.
\<close>

definition recv :: "chan option \<Rightarrow> world \<Rightarrow> (bool \<times> world) result" where
  "recv c w =
     (case c of
        None \<Rightarrow> Blocks
      | Some i \<Rightarrow>
          if i < length (chans w) then
            (case chans w ! i of
               Open \<Rightarrow> Blocks
             | Offered \<Rightarrow> Returns (True, w\<lparr>chans := (chans w)[i := Open]\<rparr>)
             | Closed \<Rightarrow> Returns (False, w))
          else Blocks)"

text \<open>\<open>close(c)\<close>: panics on a nil channel and on a closed one.\<close>

definition close_chan :: "chan option \<Rightarrow> world \<Rightarrow> world result" where
  "close_chan c w =
     (case c of
        None \<Rightarrow> Panics
      | Some i \<Rightarrow>
          if i < length (chans w) then
            (case chans w ! i of
               Closed \<Rightarrow> Panics
             | Open \<Rightarrow> Returns (w\<lparr>chans := (chans w)[i := Closed]\<rparr>)
             | Offered \<Rightarrow> Returns (w\<lparr>chans := (chans w)[i := Closed]\<rparr>))
          else Panics)"

subsection \<open>startMining and stopMining\<close>

text \<open>
  \<open>startMining\<close> (lines 353-359): makes \<open>powDone\<close> once, makes a new \<open>powQuitChan\<close>
  every time (the old one is dropped, not closed), and starts a goroutine.
\<close>

definition make_powDone :: "world \<Rightarrow> world" where
  "make_powDone w =
     (if powDone w = None
      then w\<lparr> powDone := Some (length (chans w)), chans := chans w @ [Open] \<rparr>
      else w)"

definition make_powQuitChan :: "world \<Rightarrow> world" where
  "make_powQuitChan w = w\<lparr> powQuitChan := Some (length (chans w)), chans := chans w @ [Open] \<rparr>"

definition startMining :: "world \<Rightarrow> world" where
  "startMining w =
     (let w1 = make_powQuitChan (make_powDone w)
      in w1\<lparr> workers := workers w1 @ [Spawned] \<rparr>)"

text \<open>
  \<open>stopMining\<close> (lines 361-368): receives from \<open>powQuitChan\<close> first and closes it only if
  the receive delivered a value. The wait for \<open>powDone\<close> is commented out (line 367).
\<close>

definition stopMining :: "world \<Rightarrow> world result" where
  "stopMining w =
     (case recv (powQuitChan w) w of
        Blocks \<Rightarrow> Blocks
      | Panics \<Rightarrow> Panics
      | Returns r \<Rightarrow>
          if fst r then close_chan (powQuitChan (snd r)) (snd r) else Returns (snd r))"

subsection \<open>The listener (lines 290-351)\<close>

text \<open>
  Lines 309-314: the inner loop over the block's transactions; it sets \<open>found\<close> and does
  not break.
\<close>

fun scan_block :: "bool \<Rightarrow> Transaction \<Rightarrow> Transaction list \<Rightarrow> bool" where
  "scan_block found tx [] = found"
| "scan_block found tx (othertx # rest) =
     scan_block (if txHash tx = txHash othertx then True else found) tx rest"

text \<open>Lines 307-318: the outer loop, appending to \<open>newtxs\<close>.\<close>

fun filter_txs :: "Transaction list \<Rightarrow> Transaction list \<Rightarrow> Transaction list \<Rightarrow> Transaction list" where
  "filter_txs newtxs [] btxs = newtxs"
| "filter_txs newtxs (tx # rest) btxs =
     filter_txs (if scan_block False tx btxs = False then newtxs @ [tx] else newtxs) rest btxs"

text \<open>
  The \<open>chain.NewBlockEvent\<close> case after its \<open>stopMining\<close> call: lines 300-326.
  \<open>newtxs\<close> is a slice of its own.
\<close>

definition NewBlockEvent_case :: "Block \<Rightarrow> world \<Rightarrow> world" where
  "NewBlockEvent_case b w =
     startMining
       (if Hash (CurrentBlock w) = Hash b
        then w\<lparr> txs := filter_txs [] (txs w) (Transactions b), shared := None, spare := 0 \<rparr>
        else if PrevHash b = PrevHash (CurrentBlock w)
        then w\<lparr> uncles := uncles w @ [b] \<rparr>
        else w)"

text \<open>
  Lines 331-338: the loop over \<open>miner.txs\<close> of the \<open>chain.TxPreEvent\<close> case. It stops
  at the first transaction with the event's hash; for every transaction it passes before
  that, it calls \<open>startMining\<close>.
\<close>

fun scan_txs :: "Transaction \<Rightarrow> Transaction list \<Rightarrow> world \<Rightarrow> bool \<times> world" where
  "scan_txs tx [] w = (False, w)"
| "scan_txs tx (ctx # rest) w =
     (if txHash ctx = txHash tx then (True, w) else scan_txs tx rest (startMining w))"

text \<open>
  The \<open>chain.TxPreEvent\<close> case after its \<open>stopMining\<close> call: lines 331-344. When the
  hash was not found, \<open>miner.block.Undo()\<close> works on the block the field points to, and
  the transaction is appended; \<open>startMining\<close> is not called after that. The \<open>append\<close>
  of line 343 writes behind the slice when there is room, and moves \<open>miner.txs\<close> to
  an array of its own when there is none.
\<close>

definition TxPreEvent_case :: "env \<Rightarrow> Transaction \<Rightarrow> world \<Rightarrow> world result" where
  "TxPreEvent_case e tx w =
     (let r = scan_txs tx (txs w) w; w1 = snd r in
      if fst r then Returns w1
      else
        (case block w1 of
           None \<Rightarrow> Panics
         | Some a \<Rightarrow>
             if a < length (heap w1)
             then Returns (w1\<lparr> heap := (heap w1)[a := Undo e (heap w1 ! a)],
                               txs := txs w1 @ [tx],
                               shared := (if 0 < spare w1 then shared w1 else None),
                               spare := spare w1 - 1 \<rparr>)
             else Panics))"

text \<open>One event, handled as lines 296-345 do: \<open>stopMining\<close> first, then the case.\<close>

definition handleEvent :: "env \<Rightarrow> event \<Rightarrow> world \<Rightarrow> world result" where
  "handleEvent e ev w =
     (case stopMining w of
        Blocks \<Rightarrow> Blocks
      | Panics \<Rightarrow> Panics
      | Returns w1 \<Rightarrow>
          (case ev of
             NewBlockEvent b \<Rightarrow> Returns (NewBlockEvent_case b w1)
           | TxPreEvent tx \<Rightarrow> TxPreEvent_case e tx w1))"

subsection \<open>mineNewBlock (lines 370-424)\<close>

text \<open>
  Line 381, \<open>sort.Sort(chain.TxByNonce{self.txs})\<close>: ordered by the nonce alone, as the
  name of the ordering and the comment of line 380 say. The library runs an insertion
  sort on short slices; on long ones it may leave transactions of one nonce in another
  order, and nothing below depends on the order among equal nonces.
\<close>

definition TxByNonce_sort :: "Transaction list \<Rightarrow> Transaction list" where
  "TxByNonce_sort ts = sort_key txNonce ts"

text \<open>Lines 373-378: a new block, with the uncles set when there are any.\<close>

definition template :: "env \<Rightarrow> world \<Rightarrow> Block" where
  "template e w =
     (let b = NewBlock e (CurrentBlock w) (coinbase w)
      in if length (uncles w) > 0 then SetUncles (uncles w) b else b)"

text \<open>Line 388: the call of \<open>ProcessTransactions\<close> on the sorted transactions.\<close>

definition round_result :: "env \<Rightarrow> world \<Rightarrow> processed" where
  "round_result e w = ProcessTransactions e (template e w) (TxByNonce_sort (txs w))"

text \<open>
  What the in-place sort of line 381 does to the blocks: the block that shares the array
  of \<open>miner.txs\<close> gets, in place of its transactions, as many entries from the front of
  the sorted array.
\<close>

definition sorted_in_place :: "world \<Rightarrow> Block list" where
  "sorted_in_place w =
     (case shared w of
        None \<Rightarrow> heap w
      | Some s \<Rightarrow>
          if s < length (heap w)
          then (heap w)[s := SetTransactions
                               (take (length (Transactions (heap w ! s))) (TxByNonce_sort (txs w)))
                               (heap w ! s)]
          else heap w)"

text \<open>
  Lines 371-403, everything before the search: the block is allocated and assigned to
  \<open>self.block\<close>, the transactions are sorted in place, an error is logged, the erroneous
  transactions are removed from the pool, \<open>self.txs\<close> is overwritten, and the block
  gets its transactions, receipts, rewards and state update. The \<open>append\<close> of line 393
  stays on the array of the accepted transactions when the unhandled ones fit behind them.
\<close>

definition mineNewBlock_begin :: "env \<Rightarrow> world \<Rightarrow> world" where
  "mineNewBlock_begin e w =
     (let r = round_result e w;
          b = Update e (AccumelateRewards e
                (SetReceipts (p_receipts r) (SetTransactions (p_txs r) (p_block r))));
          fits = (length (p_unhandledTxs r) \<le> p_spare r)
      in w\<lparr> block := Some (length (heap w)),
            heap := sorted_in_place w @ [b],
            debuglog := (case p_err r of None \<Rightarrow> debuglog w | Some m \<Rightarrow> debuglog w @ [m]),
            pool := RemoveSet e (p_erroneous r) (pool w),
            txs := p_txs r @ p_unhandledTxs r,
            shared := (if fits then Some (length (heap w)) else None),
            spare := (if fits then p_spare r - length (p_unhandledTxs r) else 0) \<rparr>)"

text \<open>
  Lines 407-423, after \<open>pow.Search\<close> returned \<open>nonce\<close>: nothing on nil; otherwise the
  nonce is stored in the block \<open>self.block\<close> points to, the block is processed, and on
  success broadcast and posted, with \<open>self.txs\<close> refilled from the pool; then
  \<open>startMining\<close>, on success and on failure.
\<close>

definition mineNewBlock_end :: "env \<Rightarrow> bytes option \<Rightarrow> world \<Rightarrow> world result" where
  "mineNewBlock_end e nonce w =
     (case nonce of
        None \<Rightarrow> Returns w
      | Some n \<Rightarrow>
          (case block w of
             None \<Rightarrow> Panics
           | Some a \<Rightarrow>
               if a < length (heap w) then
                 (let b = SetNonce n (heap w ! a);
                      w1 = w\<lparr> heap := (heap w)[a := b] \<rparr>
                  in case Process e b of
                       Some m \<Rightarrow> Returns (startMining w1)
                     | None \<Rightarrow>
                         Returns (startMining
                           (w1\<lparr> broadcasts := broadcasts w1 @ [b],
                                 txs := CurrentTransactions e (pool w1),
                                 shared := None,
                                 spare := 0,
                                 posted := posted w1 @ [PostNewBlock b] \<rparr>)))
               else Panics))"

subsection \<open>The goroutines, interleaved\<close>

text \<open>An unrecovered panic ends the process and every goroutine with it.\<close>

definition panic :: "world \<Rightarrow> world" where
  "panic w = w\<lparr> workers := [], listeners := [], panicked := True \<rparr>"

text \<open>
  What can happen next: a call of \<open>Start\<close>, \<open>Stop\<close> or \<open>ToggleTurbo\<close>; listener \<open>j\<close>
  runs its first \<open>startMining\<close> (line 291); listener \<open>j\<close> takes an event from the
  subscription's channel (line 295) and handles it; listener \<open>j\<close> takes the \<open>powDone\<close>
  arm of the \<open>select\<close> (line 347); worker \<open>i\<close> runs \<open>mineNewBlock\<close> up to the call of
  the search; the search of worker \<open>i\<close> returns, with a nonce or with nil, and the worker
  runs to its end; the chain gets a new head; the pool gets other contents.

  Each of these runs as one step: the goroutines are interleaved between the steps, not
  inside them. For a round this is exact as long as no second worker is live: no other
  goroutine then writes what the statements of the round read. After two calls of
  \<open>Start\<close> two rounds can overlap in the code, statement by statement; the steps give
  those runs in which they follow one another. The search may return at any time and
  with either result, whatever the state of its stop signal. The event may be any
  event, whoever posted it.
\<close>

datatype op =
  OpStart | OpStop | OpToggleTurbo | OpListen nat | OpEvent nat event | OpPowDone nat
  | OpMine nat | OpSearch nat "bytes option" | OpHead Block | OpPool "Transaction list"

definition step_listen :: "nat \<Rightarrow> world \<Rightarrow> world" where
  "step_listen j w =
     (if j < length (listeners w) \<and> listeners w ! j = LSpawned
      then (startMining w)\<lparr> listeners := (listeners w)[j := Waiting] \<rparr>
      else w)"

text \<open>
  After \<open>Unsubscribe\<close> the listener gets no event of the two kinds, so nothing is handled.
\<close>

definition step_event :: "env \<Rightarrow> nat \<Rightarrow> event \<Rightarrow> world \<Rightarrow> world" where
  "step_event e j ev w =
     (if j < length (listeners w) \<and> listeners w ! j = Waiting \<and> events w = Some True
      then (case handleEvent e ev w of
              Returns w1 \<Rightarrow> w1
            | Blocks \<Rightarrow> w\<lparr> listeners := (listeners w)[j := Blocked] \<rparr>
            | Panics \<Rightarrow> panic w)
      else w)"

definition step_powDone :: "nat \<Rightarrow> world \<Rightarrow> world" where
  "step_powDone j w =
     (if j < length (listeners w) \<and> listeners w ! j = Waiting
      then (case recv (powDone w) w of
              Returns r \<Rightarrow> startMining (snd r)
            | Blocks \<Rightarrow> w
            | Panics \<Rightarrow> w)
      else w)"

text \<open>
  The worker reads \<open>self.block\<close> and \<open>self.powQuitChan\<close> when it calls \<open>Search\<close>
  (line 406), not when it was started.
\<close>

definition step_mine :: "env \<Rightarrow> nat \<Rightarrow> world \<Rightarrow> world" where
  "step_mine e i w =
     (if i < length (workers w) \<and> workers w ! i = Spawned
      then (let w1 = mineNewBlock_begin e w
            in w1\<lparr> workers :=
                      (workers w1)[i := Searching (length (heap w)) (powQuitChan w1)
                                         (last (heap w1))] \<rparr>)
      else w)"

fun is_Searching :: "worker \<Rightarrow> bool" where
  "is_Searching (Searching a q b) = True"
| "is_Searching Spawned = False"
| "is_Searching Returned = False"

definition step_search :: "env \<Rightarrow> nat \<Rightarrow> bytes option \<Rightarrow> world \<Rightarrow> world" where
  "step_search e i nonce w =
     (if i < length (workers w) \<and> is_Searching (workers w ! i)
      then (case mineNewBlock_end e nonce (w\<lparr> workers := (workers w)[i := Returned] \<rparr>) of
              Returns w1 \<Rightarrow> w1
            | Blocks \<Rightarrow> w
            | Panics \<Rightarrow> panic w)
      else w)"

fun step :: "env \<Rightarrow> op \<Rightarrow> world \<Rightarrow> world" where
  "step e OpStart w = (if panicked w then w else Start e w)"
| "step e OpStop w =
     (if panicked w then w
      else (case Stop w of Returns w1 \<Rightarrow> w1 | Blocks \<Rightarrow> w | Panics \<Rightarrow> panic w))"
| "step e OpToggleTurbo w = (if panicked w then w else ToggleTurbo w)"
| "step e (OpListen j) w = (if panicked w then w else step_listen j w)"
| "step e (OpEvent j ev) w = (if panicked w then w else step_event e j ev w)"
| "step e (OpPowDone j) w = (if panicked w then w else step_powDone j w)"
| "step e (OpMine i) w = (if panicked w then w else step_mine e i w)"
| "step e (OpSearch i nonce) w = (if panicked w then w else step_search e i nonce w)"
| "step e (OpHead b) w = (if panicked w then w else w\<lparr> CurrentBlock := b \<rparr>)"
| "step e (OpPool p) w = (if panicked w then w else w\<lparr> pool := p \<rparr>)"

fun run :: "env \<Rightarrow> op list \<Rightarrow> world \<Rightarrow> world" where
  "run e [] w = w"
| "run e (x # xs) w = run e xs (step e x w)"

text \<open>The searches running at one instant.\<close>

definition searching :: "world \<Rightarrow> nat" where
  "searching w = length (filter is_Searching (workers w))"

section \<open>Properties and sample inputs\<close>

subsection \<open>Predicates on the process state\<close>

text \<open>No channel has a sender waiting and none was closed.\<close>

definition all_open :: "world \<Rightarrow> bool" where
  "all_open w = (\<forall>c \<in> set (chans w). c = Open)"

text \<open>A worker goroutine that has not returned.\<close>

fun live :: "worker \<Rightarrow> bool" where
  "live Spawned = True"
| "live (Searching a q b) = True"
| "live Returned = False"

text \<open>
  The block a search was given is still what the search was given: nothing wrote to it
  since \<open>pow.Search\<close> was called with it.
\<close>

fun given :: "world \<Rightarrow> worker \<Rightarrow> bool" where
  "given w (Searching a q b) = (a < length (heap w) \<and> heap w ! a = b)"
| "given w Spawned = True"
| "given w Returned = True"

definition unpatched :: "world \<Rightarrow> bool" where
  "unpatched w = list_all (given w) (workers w)"

text \<open>The same, and \<open>self.block\<close> still points to that block.\<close>

fun owns :: "world \<Rightarrow> worker \<Rightarrow> bool" where
  "owns w (Searching a q b) = (block w = Some a \<and> a < length (heap w) \<and> heap w ! a = b)"
| "owns w Spawned = True"
| "owns w Returned = True"

text \<open>Listeners that have yet to call \<open>startMining\<close>, plus workers that have not returned.\<close>

definition pending :: "world \<Rightarrow> nat" where
  "pending w =
     length (filter (\<lambda>l. l = LSpawned) (listeners w)) + length (filter live (workers w))"

definition single :: "world \<Rightarrow> bool" where
  "single w = (all_open w \<and> pending w \<le> 1 \<and> (\<forall>x \<in> set (workers w). owns w x))"

definition idle :: "world \<Rightarrow> bool" where
  "idle w = (all_open w \<and> listeners w = [] \<and> workers w = [])"

text \<open>
  Collaborators that leave the uncle list of the block they work on alone, and, after
  line 396, its transactions and receipts.
\<close>

definition keeps :: "env \<Rightarrow> bool" where
  "keeps e =
     ((\<forall>b ts. Uncles (p_block (ProcessTransactions e b ts)) = Uncles b)
      \<and> (\<forall>b. Uncles (AccumelateRewards e b) = Uncles b
             \<and> Transactions (AccumelateRewards e b) = Transactions b
             \<and> Receipts (AccumelateRewards e b) = Receipts b)
      \<and> (\<forall>b. Uncles (Update e b) = Uncles b
             \<and> Transactions (Update e b) = Transactions b
             \<and> Receipts (Update e b) = Receipts b))"

subsection \<open>The order the specification asks for\<close>

text \<open>
  The specification's order of a round's transactions: a stable sort by (sender, nonce)
  ascending, ties in arrival order.
\<close>

definition by_sender_nonce :: "Transaction list \<Rightarrow> Transaction list" where
  "by_sender_nonce ts = sort_key (\<lambda>t. (txSender t, txNonce t)) ts"

subsection \<open>Sample inputs\<close>

definition tx1 :: Transaction where
  "tx1 = \<lparr> txHash = [1], txSender = 7, txNonce = 0 \<rparr>"

definition tx2 :: Transaction where
  "tx2 = \<lparr> txHash = [2], txSender = 5, txNonce = 1 \<rparr>"

definition tx3 :: Transaction where
  "tx3 = \<lparr> txHash = [3], txSender = 5, txNonce = 2 \<rparr>"

definition tx4 :: Transaction where
  "tx4 = \<lparr> txHash = [4], txSender = 6, txNonce = 3 \<rparr>"

definition head0 :: Block where
  "head0 = Block [100] [99] [] [] [] [] 0 None"


text \<open>A block on top of \<open>head0\<close> that includes \<open>tx1\<close> and \<open>tx4\<close>.\<close>

definition newhead :: Block where
  "newhead = Block [102] [100] [] [] [tx1, tx4] [] 0 None"

text \<open>
  Sample collaborators: transactions of nonce below 2 are accepted, of nonce 2 deferred,
  of a higher nonce rejected with an error; \<open>Flush\<close> empties the pool; \<open>RemoveSet\<close>
  removes by hash; every mined block is valid.
\<close>

definition env0 :: env where
  "env0 =
     \<lparr> NewBlock = (\<lambda>h cb. Block [] (Hash h) cb [] [] [] 0 None),
       ProcessTransactions = (\<lambda>b ts.
          \<lparr> p_receipts = map (\<lambda>t. 1) (filter (\<lambda>t. txNonce t < 2) ts),
            p_txs = filter (\<lambda>t. txNonce t < 2) ts,
            p_spare = 0,
            p_unhandledTxs = filter (\<lambda>t. txNonce t = 2) ts,
            p_erroneous = filter (\<lambda>t. 2 < txNonce t) ts,
            p_err = (if filter (\<lambda>t. 2 < txNonce t) ts = [] then None else Some ''invalid''),
            p_block = b \<rparr>),
       AccumelateRewards = (\<lambda>b. b),
       Update = (\<lambda>b. b),
       Process = (\<lambda>b. None),
       Undo = (\<lambda>b. b),
       Flush = (\<lambda>p. (p, [])),
       CurrentTransactions = (\<lambda>p. p),
       RemoveSet = (\<lambda>es p. filter (\<lambda>t. txHash t \<notin> set (map txHash es)) p) \<rparr>"

text \<open>
  Other collaborators: transactions of nonce 0 are put off and all others accepted, the
  accepted ones come in a slice with room for one more, and no mined block is valid.
\<close>

definition env1 :: env where
  "env1 =
     env0\<lparr> ProcessTransactions := (\<lambda>b ts.
              \<lparr> p_receipts = [],
                p_txs = filter (\<lambda>t. 0 < txNonce t) ts,
                p_spare = 1,
                p_unhandledTxs = filter (\<lambda>t. txNonce t = 0) ts,
                p_erroneous = [],
                p_err = None,
                p_block = b \<rparr>),
           Process := (\<lambda>b. Some ''invalid'') \<rparr>"

text \<open>
  A Miner on a pool holding \<open>tx1\<close> and \<open>tx2\<close>, started, its listener and its first
  worker run: one search is under way.
\<close>

definition mined :: world where
  "mined = run env0 [OpStart, OpListen 0, OpMine 0] (NewDefaultMiner [42] [tx1, tx2] head0)"

text \<open>The same on an empty pool.\<close>

definition mined0 :: world where
  "mined0 = run env0 [OpStart, OpListen 0, OpMine 0] (NewDefaultMiner [42] [] head0)"

text \<open>
  A Miner started on a pool of four transactions that arrived out of order, its listener
  run, the pool refilled with \<open>tx4\<close> and \<open>tx1\<close>; its first worker has yet to run.
\<close>

definition started :: world where
  "started =
     run env0 [OpStart, OpListen 0, OpPool [tx4, tx1]]
       (NewDefaultMiner [42] [tx2, tx4, tx3, tx1] head0)"

text \<open>\<open>Start\<close> called twice, both listeners and both workers run.\<close>

definition twice :: "op list" where
  "twice = [OpStart, OpStart, OpListen 0, OpListen 1, OpMine 0, OpMine 1]"

text \<open>
  \<open>Start\<close> called once; an event arrives during the first search, the search finds a
  nonce, and the next worker runs.
\<close>

definition once :: "op list" where
  "once =
     [OpStart, OpListen 0, OpMine 0, OpEvent 0 (TxPreEvent tx3), OpSearch 0 (Some [5]), OpMine 1]"


section \<open>Lemmas\<close>


subsection \<open>The loops of the new-block case\<close>

lemma scan_block_eq: "scan_block f tx bs = (f \<or> txHash tx \<in> txHash ` set bs)"
  by (induction bs arbitrary: f) auto

lemma filter_txs_eq:
  "filter_txs acc ts bs = acc @ filter (\<lambda>t. txHash t \<notin> txHash ` set bs) ts"
  by (induction ts arbitrary: acc) (auto simp: scan_block_eq)

subsection \<open>No channel gets a sender or is closed\<close>

text \<open>
  While every channel is open and without a sender, a receive does not return, so
  \<open>stopMining\<close> and with it the handling of an event does not return; and every step
  keeps the channels that way, since the only \<open>close\<close> stands behind such a receive.
\<close>

lemma recv_blocks:
  assumes "all_open w"
  shows "recv c w = Blocks"
proof (cases c)
  case None
  then show ?thesis by (simp add: recv_def)
next
  case (Some i)
  show ?thesis
  proof (cases "i < length (chans w)")
    case True
    then have "chans w ! i \<in> set (chans w)" by simp
    with assms have "chans w ! i = Open" by (simp add: all_open_def)
    with Some True show ?thesis by (simp add: recv_def)
  next
    case False
    with Some show ?thesis by (simp add: recv_def)
  qed
qed

lemma stopMining_blocks: "all_open w \<Longrightarrow> stopMining w = Blocks"
  by (simp add: stopMining_def recv_blocks)

lemma handleEvent_blocks: "all_open w \<Longrightarrow> handleEvent e ev w = Blocks"
  by (simp add: handleEvent_def stopMining_blocks)

lemma chans_startMining: "set (chans (startMining w)) = insert Open (set (chans w))"
  by (simp add: startMining_def make_powDone_def make_powQuitChan_def Let_def)

lemma all_open_startMining: "all_open w \<Longrightarrow> all_open (startMining w)"
  by (simp add: all_open_def chans_startMining)


lemma startMining_fields:
  "workers (startMining w) = workers w @ [Spawned]"
  "heap (startMining w) = heap w"
  "block (startMining w) = block w"
  "txs (startMining w) = txs w"
  "uncles (startMining w) = uncles w"
  "listeners (startMining w) = listeners w"
  "pool (startMining w) = pool w"
  "CurrentBlock (startMining w) = CurrentBlock w"
  "posted (startMining w) = posted w"
  "broadcasts (startMining w) = broadcasts w"
  "debuglog (startMining w) = debuglog w"
  "panicked (startMining w) = panicked w"
  "events (startMining w) = events w"
  "coinbase (startMining w) = coinbase w"
  by (simp_all add: startMining_def make_powDone_def make_powQuitChan_def Let_def)

lemma mineNewBlock_end_nil: "mineNewBlock_end e None w = Returns w"
  by (simp add: mineNewBlock_end_def)

lemma mineNewBlock_end_found:
  assumes "mineNewBlock_end e (Some x) w = Returns w1"
  obtains a w2 where "block w = Some a" and "a < length (heap w)"
    and "w1 = startMining w2" and "chans w2 = chans w" and "workers w2 = workers w"
    and "listeners w2 = listeners w" and "block w2 = block w"
    and "heap w2 = (heap w)[a := SetNonce x (heap w ! a)]"
    and "panicked w2 = panicked w" and "uncles w2 = uncles w"
proof (cases "block w")
  case None
  with assms show ?thesis by (simp add: mineNewBlock_end_def)
next
  case (Some a)
  show ?thesis
  proof (cases "a < length (heap w)")
    case False
    with Some assms show ?thesis by (simp add: mineNewBlock_end_def)
  next
    case True
    let ?b = "SetNonce x (heap w ! a)"
    let ?w1 = "w\<lparr> heap := (heap w)[a := ?b] \<rparr>"
    show ?thesis
    proof (cases "Process e ?b")
      case (Some m)
      with \<open>block w = Some a\<close> True assms have "w1 = startMining ?w1"
        by (simp add: mineNewBlock_end_def Let_def)
      with \<open>block w = Some a\<close> True that[of a ?w1] show ?thesis by simp
    next
      case None
      let ?w2 = "?w1\<lparr> broadcasts := broadcasts ?w1 @ [?b],
                       txs := CurrentTransactions e (pool ?w1),
                       shared := None,
                       spare := 0,
                       posted := posted ?w1 @ [PostNewBlock ?b] \<rparr>"
      from None \<open>block w = Some a\<close> True assms have "w1 = startMining ?w2"
        by (simp add: mineNewBlock_end_def Let_def)
      with \<open>block w = Some a\<close> True that[of a ?w2] show ?thesis by simp
    qed
  qed
qed

lemma all_open_end:
  assumes "all_open w" and "mineNewBlock_end e n w = Returns w1"
  shows "all_open w1"
proof (cases n)
  case None
  with assms show ?thesis by (simp add: mineNewBlock_end_nil)
next
  case (Some x)
  with assms(2) obtain w2 where w1: "w1 = startMining w2" and c: "chans w2 = chans w"
    by (auto elim: mineNewBlock_end_found)
  from c assms(1) have "all_open w2" by (simp add: all_open_def)
  with w1 show ?thesis by (simp add: all_open_startMining)
qed

lemma all_open_panic: "all_open w \<Longrightarrow> all_open (panic w)"
  by (simp add: all_open_def panic_def)

lemma chans_Start: "chans (Start e w) = chans w"
  by (simp add: Start_def)

lemma chans_begin: "chans (mineNewBlock_begin e w) = chans w"
  by (simp add: mineNewBlock_begin_def Let_def)

lemma all_open_step:
  assumes "all_open w"
  shows "all_open (step e x w)"
proof (cases x)
  case OpStart
  with assms show ?thesis by (simp add: all_open_def chans_Start)
next
  case OpStop
  show ?thesis
  proof (cases "events w")
    case None
    with OpStop assms show ?thesis by (simp add: Stop_def all_open_panic)
  next
    case (Some s)
    with OpStop assms show ?thesis by (simp add: Stop_def all_open_def)
  qed
next
  case OpToggleTurbo
  with assms show ?thesis by (simp add: all_open_def ToggleTurbo_def)
next
  case (OpListen j)
  with assms all_open_startMining[of w] show ?thesis
    by (simp add: all_open_def step_listen_def)
next
  case (OpEvent j ev)
  with assms show ?thesis
    by (simp add: step_event_def handleEvent_blocks all_open_def)
next
  case (OpPowDone j)
  with assms show ?thesis by (simp add: step_powDone_def recv_blocks)
next
  case (OpMine i)
  with assms show ?thesis
    by (simp add: all_open_def step_mine_def Let_def chans_begin)
next
  case (OpSearch i n)
  let ?w = "w\<lparr> workers := (workers w)[i := Returned] \<rparr>"
  from assms have o: "all_open ?w" by (simp add: all_open_def)
  show ?thesis
  proof (cases "mineNewBlock_end e n ?w")
    case (Returns w1)
    with o have "all_open w1" by (rule all_open_end)
    with OpSearch Returns assms show ?thesis by (simp add: step_search_def)
  next
    case Blocks
    with OpSearch assms show ?thesis by (simp add: step_search_def)
  next
    case Panics
    with OpSearch assms show ?thesis by (simp add: step_search_def all_open_panic)
  qed
next
  case (OpHead b)
  with assms show ?thesis by (simp add: all_open_def)
next
  case (OpPool p)
  with assms show ?thesis by (simp add: all_open_def)
qed

lemma all_open_run: "all_open w \<Longrightarrow> all_open (run e xs w)"
  by (induction xs arbitrary: w) (simp_all add: all_open_step)

lemma all_open_new: "all_open (NewDefaultMiner cb p h)"
  by (simp add: all_open_def NewDefaultMiner_def)

subsection \<open>After one Start, one worker at a time\<close>

text \<open>
  With \<open>Start\<close> called once, there is at any time at most one goroutine that is a
  listener about to call \<open>startMining\<close> or a worker that has not returned; and the
  block of a running search is the one \<open>self.block\<close> points to, unchanged.
\<close>

lemma length_filter_update:
  "i < length xs \<Longrightarrow>
   length (filter P (xs[i := y])) + (if P (xs ! i) then 1 else 0) =
   length (filter P xs) + (if P y then 1 else 0)"
proof (induction xs arbitrary: i)
  case Nil
  then show ?case by simp
next
  case (Cons x xs)
  show ?case
  proof (cases i)
    case 0
    then show ?thesis by simp
  next
    case (Suc k)
    with Cons.prems have "k < length xs" by simp
    from Cons.IH[OF this] Suc show ?thesis by simp
  qed
qed

lemma not_live_owns: "\<not> live x \<Longrightarrow> owns w x"
  by (cases x) simp_all

lemma is_Searching_live: "is_Searching x \<Longrightarrow> live x"
  by (cases x) simp_all

lemma searching_le_pending: "searching w \<le> pending w"
proof -
  have "length (filter is_Searching xs) \<le> length (filter live xs)" for xs
    by (induction xs) (auto dest: is_Searching_live)
  then show ?thesis by (simp add: searching_def pending_def trans_le_add2)
qed

lemma no_live_owns:
  assumes "length (filter live xs) = 0"
  shows "\<forall>x \<in> set xs. owns w x"
proof
  fix x assume "x \<in> set xs"
  with assms have "\<not> live x" by (auto simp: filter_empty_conv)
  then show "owns w x" by (rule not_live_owns)
qed

lemma idle_single: "idle w \<Longrightarrow> single w"
  by (simp add: idle_def single_def pending_def)



lemma owns_same: "block w1 = block w \<Longrightarrow> heap w1 = heap w \<Longrightarrow> owns w1 x = owns w x"
  by (cases x) simp_all

lemma single_panic: "all_open w \<Longrightarrow> single (panic w)"
  by (simp add: single_def pending_def all_open_def panic_def)

lemma length_sorted_in_place: "length (sorted_in_place w) = length (heap w)"
  by (simp add: sorted_in_place_def split: option.split)

lemma begin_fields:
  "workers (mineNewBlock_begin e w) = workers w"
  "listeners (mineNewBlock_begin e w) = listeners w"
  "block (mineNewBlock_begin e w) = Some (length (heap w))"
  "length (heap (mineNewBlock_begin e w)) = Suc (length (heap w))"
  "heap (mineNewBlock_begin e w) ! length (heap w) = last (heap (mineNewBlock_begin e w))"
  "uncles (mineNewBlock_begin e w) = uncles w"
  "panicked (mineNewBlock_begin e w) = panicked w"
  by (simp_all add: mineNewBlock_begin_def Let_def length_sorted_in_place nth_append)

lemma single_stop:
  assumes "single w"
  shows "single (step e OpStop w)"
proof (cases "panicked w")
  case True
  with assms show ?thesis by simp
next
  case False
  show ?thesis
  proof (cases "events w")
    case None
    from assms have "all_open w" by (simp add: single_def)
    then have "single (panic w)" by (rule single_panic)
    with False None show ?thesis by (simp add: Stop_def)
  next
    case (Some s)
    let ?w = "w\<lparr> events := Some False, posted := posted w @ [Event Stopped] \<rparr>"
    have "owns ?w x = owns w x" for x by (rule owns_same) simp_all
    with assms have "single ?w" by (simp add: single_def pending_def all_open_def)
    with False Some show ?thesis by (simp add: Stop_def)
  qed
qed

lemma single_listen:
  assumes "single w"
  shows "single (step_listen j w)"
proof (cases "j < length (listeners w) \<and> listeners w ! j = LSpawned")
  case False
  with assms show ?thesis by (auto simp: step_listen_def)
next
  case True
  let ?w = "(startMining w)\<lparr> listeners := (listeners w)[j := Waiting] \<rparr>"
  from True have j: "j < length (listeners w)" and s: "listeners w ! j = LSpawned" by simp_all
  from length_filter_update[OF j, of "\<lambda>l. l = LSpawned" Waiting] s
  have "length (filter (\<lambda>l. l = LSpawned) ((listeners w)[j := Waiting])) + 1
        = length (filter (\<lambda>l. l = LSpawned) (listeners w))" by simp
  then have p: "pending ?w = pending w" by (simp add: pending_def startMining_fields)
  from assms have "all_open (startMining w)" by (simp add: single_def all_open_startMining)
  then have o: "all_open ?w" by (simp add: all_open_def)
  have "owns ?w x = owns w x" for x by (rule owns_same) (simp_all add: startMining_fields)
  with assms have "\<forall>x \<in> set (workers ?w). owns ?w x"
    by (simp add: single_def startMining_fields)
  with o p assms have "single ?w" by (simp add: single_def)
  with True show ?thesis by (simp add: step_listen_def)
qed

lemma single_event:
  assumes "single w"
  shows "single (step_event e j ev w)"
proof (cases "j < length (listeners w) \<and> listeners w ! j = Waiting \<and> events w = Some True")
  case False
  with assms show ?thesis by (auto simp: step_event_def)
next
  case True
  let ?w = "w\<lparr> listeners := (listeners w)[j := Blocked] \<rparr>"
  from True have j: "j < length (listeners w)" and s: "listeners w ! j = Waiting" by simp_all
  from assms have b: "handleEvent e ev w = Blocks" by (simp add: single_def handleEvent_blocks)
  from length_filter_update[OF j, of "\<lambda>l. l = LSpawned" Blocked] s
  have "length (filter (\<lambda>l. l = LSpawned) ((listeners w)[j := Blocked]))
        = length (filter (\<lambda>l. l = LSpawned) (listeners w))" by simp
  then have p: "pending ?w = pending w" by (simp add: pending_def)
  have "owns ?w x = owns w x" for x by (rule owns_same) simp_all
  with p assms have "single ?w" by (simp add: single_def all_open_def)
  with True b show ?thesis by (simp add: step_event_def)
qed

lemma single_powDone:
  assumes "single w"
  shows "single (step_powDone j w)"
proof -
  from assms have "recv (powDone w) w = Blocks" by (simp add: single_def recv_blocks)
  with assms show ?thesis by (simp add: step_powDone_def)
qed

lemma others_idle:
  assumes "length (filter live xs) \<le> 1" and "i < length xs" and "live (xs ! i)"
  shows "length (filter live (xs[i := Returned])) = 0"
proof -
  from length_filter_update[OF assms(2), of live Returned] assms(3)
  have "Suc (length (filter live (xs[i := Returned]))) = length (filter live xs)" by simp
  with assms(1) show ?thesis by linarith
qed

lemma single_mine:
  assumes "single w"
  shows "single (step_mine e i w)"
proof (cases "i < length (workers w) \<and> workers w ! i = Spawned")
  case False
  with assms show ?thesis by (auto simp: step_mine_def)
next
  case True
  let ?w1 = "mineNewBlock_begin e w"
  let ?s = "Searching (length (heap w)) (powQuitChan ?w1) (last (heap ?w1))"
  let ?w = "?w1\<lparr> workers := (workers ?w1)[i := ?s] \<rparr>"
  from True have i: "i < length (workers w)" and s: "workers w ! i = Spawned" by simp_all
  from assms have lv: "length (filter live (workers w)) \<le> 1" by (simp add: single_def pending_def)
  from length_filter_update[OF i, of live ?s] s
  have "length (filter live ((workers w)[i := ?s])) = length (filter live (workers w))" by simp
  then have p: "pending ?w = pending w" by (simp add: pending_def begin_fields)
  from assms have o: "all_open ?w" by (simp add: single_def all_open_def chans_begin)
  from others_idle[OF lv i] s have "length (filter live ((workers w)[i := Returned])) = 0" by simp
  then have rest: "\<forall>x \<in> set ((workers w)[i := Returned]). owns ?w x" by (rule no_live_owns)
  have own: "owns ?w ?s" by (simp add: begin_fields)
  have "workers ?w = ((workers w)[i := Returned])[i := ?s]" by (simp add: begin_fields)
  then have "set (workers ?w) \<subseteq> insert ?s (set ((workers w)[i := Returned]))"
    by (simp only: set_update_subset_insert)
  with rest own have "\<forall>x \<in> set (workers ?w). owns ?w x" by blast
  with o p assms have "single ?w" by (simp add: single_def)
  with True show ?thesis by (simp add: step_mine_def Let_def)
qed

lemma single_search:
  assumes "single w"
  shows "single (step_search e i n w)"
proof (cases "i < length (workers w) \<and> is_Searching (workers w ! i)")
  case False
  with assms show ?thesis by (auto simp: step_search_def)
next
  case True
  let ?w = "w\<lparr> workers := (workers w)[i := Returned] \<rparr>"
  from True have i: "i < length (workers w)" and s: "live (workers w ! i)"
    by (simp_all add: is_Searching_live)
  from assms have lv: "length (filter live (workers w)) \<le> 1" by (simp add: single_def pending_def)
  have z: "length (filter live (workers ?w)) = 0" using others_idle[OF lv i s] by simp
  from length_filter_update[OF i, of live Returned] s
  have "length (filter live (workers w)) = Suc (length (filter live (workers ?w)))" by simp
  with z assms have ls: "length (filter (\<lambda>l. l = LSpawned) (listeners w)) = 0"
    by (simp add: single_def pending_def)
  from assms have o: "all_open ?w" by (simp add: single_def all_open_def)
  show ?thesis
  proof (cases "mineNewBlock_end e n ?w")
    case Blocks
    with True assms show ?thesis by (simp add: step_search_def)
  next
    case Panics
    from assms have "all_open w" by (simp add: single_def)
    then have "single (panic w)" by (rule single_panic)
    with True Panics show ?thesis by (simp add: step_search_def)
  next
    case (Returns w1)
    have "single w1"
    proof (cases n)
      case None
      with Returns have w1: "w1 = ?w" by (simp add: mineNewBlock_end_nil)
      from z have "\<forall>x \<in> set (workers ?w). owns ?w x" by (rule no_live_owns)
      with o z ls w1 show ?thesis by (simp add: single_def pending_def)
    next
      case (Some x)
      with Returns obtain w2 where w1: "w1 = startMining w2" and c: "chans w2 = chans ?w"
        and k: "workers w2 = workers ?w" and l: "listeners w2 = listeners ?w"
        by (auto elim: mineNewBlock_end_found)
      from c o have "all_open w2" by (simp add: all_open_def)
      then have o1: "all_open w1" using w1 by (simp add: all_open_startMining)
      from z k have z2: "length (filter live (workers w2)) = 0" by simp
      then have "\<forall>x \<in> set (workers w2). owns w1 x" by (rule no_live_owns)
      then have ow: "\<forall>x \<in> set (workers w1). owns w1 x" using w1 by (simp add: startMining_fields)
      from z2 ls l w1 have "pending w1 = 1" by (simp add: pending_def startMining_fields)
      with o1 ow show ?thesis by (simp add: single_def)
    qed
    with True Returns show ?thesis by (simp add: step_search_def)
  qed
qed

lemma single_step:
  assumes "single w" and "x \<noteq> OpStart"
  shows "single (step e x w)"
proof (cases "panicked w")
  case True
  with assms show ?thesis by (cases x) simp_all
next
  case False
  show ?thesis
  proof (cases x)
    case OpStart
    with assms show ?thesis by simp
  next
    case OpStop
    with assms show ?thesis by (simp only: single_stop)
  next
    case OpToggleTurbo
    have "owns (ToggleTurbo w) y = owns w y" for y
      by (rule owns_same) (simp_all add: ToggleTurbo_def)
    with OpToggleTurbo assms False show ?thesis
      by (simp add: single_def pending_def all_open_def ToggleTurbo_def)
  next
    case (OpListen j)
    with assms False show ?thesis by (simp add: single_listen)
  next
    case (OpEvent j ev)
    with assms False show ?thesis by (simp add: single_event)
  next
    case (OpPowDone j)
    with assms False show ?thesis by (simp add: single_powDone)
  next
    case (OpMine i)
    with assms False show ?thesis by (simp add: single_mine)
  next
    case (OpSearch i n)
    with assms False show ?thesis by (simp add: single_search)
  next
    case (OpHead b)
    have "owns (w\<lparr> CurrentBlock := b \<rparr>) y = owns w y" for y by (rule owns_same) simp_all
    with OpHead assms False show ?thesis by (simp add: single_def pending_def all_open_def)
  next
    case (OpPool p)
    have "owns (w\<lparr> pool := p \<rparr>) y = owns w y" for y by (rule owns_same) simp_all
    with OpPool assms False show ?thesis by (simp add: single_def pending_def all_open_def)
  qed
qed

lemma single_run: "single w \<Longrightarrow> OpStart \<notin> set xs \<Longrightarrow> single (run e xs w)"
proof (induction xs arbitrary: w)
  case Nil
  then show ?case by simp
next
  case (Cons x xs)
  from Cons.prems have "x \<noteq> OpStart" and n: "OpStart \<notin> set xs" by auto
  with Cons.prems(1) have "single (step e x w)" by (simp add: single_step)
  from Cons.IH[OF this n] show ?case by simp
qed

lemma idle_step:
  assumes "idle w" and "x \<noteq> OpStart"
  shows "idle (step e x w)"
proof (cases "panicked w")
  case True
  with assms show ?thesis by (cases x) simp_all
next
  case False
  show ?thesis
  proof (cases x)
    case OpStart
    with assms show ?thesis by simp
  next
    case OpStop
    show ?thesis
    proof (cases "events w")
      case None
      with OpStop assms False show ?thesis by (simp add: Stop_def idle_def all_open_def panic_def)
    next
      case (Some s)
      with OpStop assms False show ?thesis by (simp add: Stop_def idle_def all_open_def)
    qed
  next
    case OpToggleTurbo
    with assms show ?thesis by (simp add: idle_def all_open_def ToggleTurbo_def)
  next
    case (OpListen j)
    with assms show ?thesis by (simp add: step_listen_def idle_def)
  next
    case (OpEvent j ev)
    with assms show ?thesis by (simp add: step_event_def idle_def)
  next
    case (OpPowDone j)
    with assms show ?thesis by (simp add: step_powDone_def idle_def)
  next
    case (OpMine i)
    with assms show ?thesis by (simp add: step_mine_def idle_def)
  next
    case (OpSearch i n)
    with assms show ?thesis by (simp add: step_search_def idle_def)
  next
    case (OpHead b)
    with assms show ?thesis by (simp add: idle_def all_open_def)
  next
    case (OpPool p)
    with assms show ?thesis by (simp add: idle_def all_open_def)
  qed
qed

lemma idle_Start:
  assumes "idle w"
  shows "single (step e OpStart w)"
proof (cases "panicked w")
  case True
  with assms show ?thesis by (simp add: idle_single)
next
  case False
  with assms show ?thesis
    by (simp add: idle_def single_def pending_def all_open_def Start_def)
qed

lemma started_once:
  "idle w \<Longrightarrow> count_list xs OpStart \<le> 1 \<Longrightarrow> single (run e xs w)"
proof (induction xs arbitrary: w)
  case Nil
  then show ?case by (simp add: idle_single)
next
  case (Cons x xs)
  show ?case
  proof (cases "x = OpStart")
    case True
    with Cons.prems have "count_list xs OpStart = 0" by simp
    then have n: "OpStart \<notin> set xs" by (simp add: count_list_0_iff)
    from Cons.prems(1) have "single (step e OpStart w)" by (rule idle_Start)
    from single_run[OF this n] True show ?thesis by simp
  next
    case False
    with Cons.prems have "idle (step e x w)" and "count_list xs OpStart \<le> 1"
      by (simp_all add: idle_step)
    then show ?thesis by (simp add: Cons.IH)
  qed
qed

lemma idle_new: "idle (NewDefaultMiner cb p h)"
  by (simp add: idle_def all_open_def NewDefaultMiner_def)

subsection \<open>Unfolding the sample inputs\<close>

lemmas ex_defs = tx1_def tx2_def tx3_def tx4_def head0_def env0_def
  NewDefaultMiner_def Start_def step_listen_def step_mine_def startMining_def
  make_powDone_def make_powQuitChan_def mineNewBlock_begin_def round_result_def template_def
  sorted_in_place_def
  TxByNonce_sort_def SetReceipts_def SetTransactions_def SetUncles_def Let_def

subsection \<open>Further facts about the handlers\<close>

text \<open>
  Among them, what the code behind the \<open>stopMining\<close> call of each case does when it is
  run on its own: the new-block case filters the set and appends a sibling to the
  uncles, with no look at what the list holds.
\<close>

lemma run_append: "run e (xs @ ys) w = run e ys (run e xs w)"
  by (induction xs arbitrary: w) simp_all

lemma owns_given: "owns w x \<Longrightarrow> given w x"
  by (cases x) simp_all

lemma single_unpatched: "single w \<Longrightarrow> unpatched w"
  by (simp add: single_def unpatched_def list_all_iff owns_given)

lemma stopMining_Returns:
  assumes "stopMining w = Returns w1"
  shows "\<exists>cs. w1 = w\<lparr> chans := cs \<rparr>"
proof (cases "powQuitChan w")
  case None
  with assms show ?thesis by (simp add: stopMining_def recv_def)
next
  case (Some i)
  show ?thesis
  proof (cases "i < length (chans w)")
    case False
    with Some assms show ?thesis by (simp add: stopMining_def recv_def)
  next
    case True
    show ?thesis
    proof (cases "chans w ! i")
      case Open
      with Some True assms show ?thesis by (simp add: stopMining_def recv_def)
    next
      case Offered
      with Some True assms have "w1 = w\<lparr> chans := ((chans w)[i := Open])[i := Closed] \<rparr>"
        by (simp add: stopMining_def recv_def close_chan_def)
      then show ?thesis by blast
    next
      case Closed
      with Some True assms have "w1 = w\<lparr> chans := chans w \<rparr>"
        by (simp add: stopMining_def recv_def)
      then show ?thesis by blast
    qed
  qed
qed

lemma NewBlockEvent_case_txs:
  "Hash (CurrentBlock w) = Hash b \<Longrightarrow>
   txs (NewBlockEvent_case b w) = filter (\<lambda>t. txHash t \<notin> txHash ` set (Transactions b)) (txs w)"
  by (simp add: NewBlockEvent_case_def startMining_fields filter_txs_eq)

lemma all_open_reach: "all_open (run e xs (NewDefaultMiner cb p h))"
  by (simp add: all_open_run all_open_new)

lemma step_event_frame:
  assumes "all_open w"
  shows "chans (step e (OpEvent j ev) w) = chans w \<and> workers (step e (OpEvent j ev) w) = workers w
    \<and> txs (step e (OpEvent j ev) w) = txs w \<and> uncles (step e (OpEvent j ev) w) = uncles w
    \<and> heap (step e (OpEvent j ev) w) = heap w"
proof (cases "j < length (listeners w) \<and> listeners w ! j = Waiting \<and> events w = Some True")
  case False
  then show ?thesis by (auto simp: step_event_def)
next
  case True
  from assms have "handleEvent e ev w = Blocks" by (rule handleEvent_blocks)
  with True show ?thesis by (simp add: step_event_def)
qed

lemma scan_txs_fields:
  "uncles (snd (scan_txs tx ts w)) = uncles w"
  "txs (snd (scan_txs tx ts w)) = txs w"
  "heap (snd (scan_txs tx ts w)) = heap w"
  "block (snd (scan_txs tx ts w)) = block w"
  by (induction ts arbitrary: w) (simp_all add: startMining_fields)

lemma scan_txs_found: "fst (scan_txs tx ts w) = (txHash tx \<in> txHash ` set ts)"
  by (induction ts arbitrary: w) auto

lemma scan_txs_workers:
  "workers (snd (scan_txs tx ts w)) =
     workers w @ replicate (length (takeWhile (\<lambda>c. txHash c \<noteq> txHash tx) ts)) Spawned"
proof (induction ts arbitrary: w)
  case Nil
  then show ?case by simp
next
  case (Cons c ts)
  show ?case
  proof (cases "txHash c = txHash tx")
    case True
    then show ?thesis by simp
  next
    case False
    with Cons.IH[of "startMining w"] show ?thesis by (simp add: startMining_fields)
  qed
qed

lemma NewBlockEvent_case_uncles:
  "uncles (NewBlockEvent_case b w) =
     (if Hash (CurrentBlock w) \<noteq> Hash b \<and> PrevHash b = PrevHash (CurrentBlock w)
      then uncles w @ [b] else uncles w)"
  by (simp add: NewBlockEvent_case_def startMining_fields)

subsection \<open>What no reachable step changes\<close>



subsection \<open>What a round puts into its block\<close>

lemma Set_fields:
  "Uncles (SetUncles us b) = us"
  "Uncles (SetTransactions ts b) = Uncles b"
  "Uncles (SetReceipts rs b) = Uncles b"
  "Transactions (SetTransactions ts b) = ts"
  "Transactions (SetReceipts rs b) = Transactions b"
  "Receipts (SetReceipts rs b) = rs"
  by (simp_all add: SetUncles_def SetTransactions_def SetReceipts_def)

lemma begin_built:
  assumes "keeps e"
  shows "Uncles (last (heap (mineNewBlock_begin e w))) =
           (if uncles w = [] then Uncles (NewBlock e (CurrentBlock w) (coinbase w)) else uncles w)"
    and "Transactions (last (heap (mineNewBlock_begin e w))) =
           p_txs (ProcessTransactions e (template e w) (TxByNonce_sort (txs w)))"
    and "Receipts (last (heap (mineNewBlock_begin e w))) =
           p_receipts (ProcessTransactions e (template e w) (TxByNonce_sort (txs w)))"
  using assms
  by (simp_all add: keeps_def mineNewBlock_begin_def round_result_def template_def Let_def
      Set_fields)

lemma step_mine_worker:
  assumes "i < length (workers w)" and "workers w ! i = Spawned"
  shows "workers (step_mine e i w) ! i =
           Searching (length (heap w)) (powQuitChan w) (last (heap (mineNewBlock_begin e w)))"
    and "heap (step_mine e i w) ! length (heap w) = last (heap (mineNewBlock_begin e w))"
  using assms
  by (simp_all add: step_mine_def Let_def begin_fields)
     (simp_all add: mineNewBlock_begin_def Let_def)


section \<open>The claims\<close>

subsection \<open>C1: searches running at one instant\<close>

text \<open>
  C1, counterexample. Nothing in \<open>Start\<close> (lines 267-282) looks whether the Miner is
  running. Called twice, it starts two listeners; each calls \<open>startMining\<close> (line 291),
  each worker reaches \<open>pow.Search\<close>, and two searches run at the same instant.
\<close>

theorem two_starts_two_searches:
  "searching (run env0 twice (NewDefaultMiner [42] [] head0)) = 2"
  by (simp add: ex_defs twice_def searching_def)

text \<open>
  C1, as amended. From a newly constructed Miner, in every state reached by calls of
  \<open>Start\<close> and \<open>Stop\<close>, event deliveries, runs of the goroutines and returns of the
  search in any order, with \<open>Start\<close> called at most once, at most one search is running.
  This holds for every behaviour of the collaborators, and whatever the search returns
  and whenever.
\<close>

theorem one_start_one_search:
  "count_list xs OpStart \<le> 1 \<Longrightarrow> searching (run e xs (NewDefaultMiner cb p h)) \<le> 1"
proof -
  assume "count_list xs OpStart \<le> 1"
  with idle_new have "single (run e xs (NewDefaultMiner cb p h))" by (rule started_once)
  then have "pending (run e xs (NewDefaultMiner cb p h)) \<le> 1" by (simp add: single_def)
  with searching_le_pending[of "run e xs (NewDefaultMiner cb p h)"] show ?thesis by simp
qed

text \<open>
  C1, witness: one \<open>Start\<close>, an event during the first search, a nonce found, the second
  worker run. One search is running at the end.
\<close>

theorem one_start_one_search_witness:
  "count_list once OpStart \<le> 1
   \<and> searching (run env0 once (NewDefaultMiner [42] [tx1, tx2] head0)) \<le> 1
   \<and> searching (run env0 once (NewDefaultMiner [42] [tx1, tx2] head0)) = 1"
proof -
  have c: "count_list once OpStart \<le> 1" by (simp add: once_def)
  have "searching (run env0 once (NewDefaultMiner [42] [tx1, tx2] head0)) = 1"
    by (simp add: ex_defs once_def searching_def step_event_def step_search_def handleEvent_def
        stopMining_def recv_def mineNewBlock_end_def SetNonce_def)
  with c one_start_one_search[OF c, of env0 "[42]" "[tx1, tx2]" head0] show ?thesis by simp
qed

subsection \<open>C2: cancel, join, then mutate\<close>

text \<open>
  C2, what the code does. In every state the Miner can reach, whatever the collaborators
  do, the handler of an event does not get past \<open>stopMining\<close>: the receive of line 363
  waits on a channel that nobody sends on and nobody has closed. The search is not
  cancelled (the channel stays as it was, the worker keeps searching), no acknowledgment
  is waited for (line 367 is a comment), and the transactions, the uncles and the blocks
  stay as they were.
\<close>

theorem handler_never_returns:
  "handleEvent e ev (run e xs (NewDefaultMiner cb p h)) = Blocks
   \<and> chans (run e (xs @ [OpEvent j ev]) (NewDefaultMiner cb p h))
       = chans (run e xs (NewDefaultMiner cb p h))
   \<and> workers (run e (xs @ [OpEvent j ev]) (NewDefaultMiner cb p h))
       = workers (run e xs (NewDefaultMiner cb p h))
   \<and> txs (run e (xs @ [OpEvent j ev]) (NewDefaultMiner cb p h))
       = txs (run e xs (NewDefaultMiner cb p h))
   \<and> uncles (run e (xs @ [OpEvent j ev]) (NewDefaultMiner cb p h))
       = uncles (run e xs (NewDefaultMiner cb p h))"
  using step_event_frame[OF all_open_reach, of e j ev e xs cb p h]
    handleEvent_blocks[OF all_open_reach, of e ev e xs cb p h]
  by (simp add: run_append)

text \<open>
  C2, at a concrete input: a started Miner with one search under way gets a
  pending-transaction event.
\<close>

theorem handler_never_returns_witness:
  "handleEvent env0 (TxPreEvent tx3) mined = Blocks
   \<and> workers (run env0 [OpStart, OpListen 0, OpMine 0, OpEvent 0 (TxPreEvent tx3)]
        (NewDefaultMiner [42] [tx1, tx2] head0)) = workers mined"
  using handler_never_returns[of env0 "TxPreEvent tx3" "[OpStart, OpListen 0, OpMine 0]"
      "[42]" "[tx1, tx2]" head0 0]
  by (simp add: mined_def)

subsection \<open>C3: a pending transaction\<close>

text \<open>
  C3, what the code does. The code of the pending-transaction case after \<open>stopMining\<close>
  (lines 331-344) returns with the transaction appended once if its hash was not in the
  set, and with the set as it was otherwise. It calls \<open>startMining\<close> once for every
  transaction it passes before the first one with the event's hash (line 337), that is
  for every transaction of the set when the hash is new, and it does not call it after
  the append. Each call starts a worker and none ends one.
\<close>

theorem pending_tx_restarts:
  assumes "block w = Some a" and "a < length (heap w)"
  shows "\<exists>w1. TxPreEvent_case e tx w = Returns w1
           \<and> txs w1 = (if txHash tx \<in> txHash ` set (txs w) then txs w else txs w @ [tx])
           \<and> workers w1 =
               workers w @
               replicate (length (takeWhile (\<lambda>c. txHash c \<noteq> txHash tx) (txs w))) Spawned"
proof (cases "txHash tx \<in> txHash ` set (txs w)")
  case True
  then have "fst (scan_txs tx (txs w) w)" by (simp add: scan_txs_found)
  then have "TxPreEvent_case e tx w = Returns (snd (scan_txs tx (txs w) w))"
    by (simp add: TxPreEvent_case_def Let_def)
  with True show ?thesis by (simp add: scan_txs_fields scan_txs_workers)
next
  case False
  let ?w1 = "snd (scan_txs tx (txs w) w)"
  from False have "\<not> fst (scan_txs tx (txs w) w)" by (simp add: scan_txs_found)
  with assms have "TxPreEvent_case e tx w =
      Returns (?w1\<lparr> heap := (heap ?w1)[a := Undo e (heap ?w1 ! a)], txs := txs ?w1 @ [tx],
                     shared := (if 0 < spare ?w1 then shared ?w1 else None),
                     spare := spare ?w1 - 1 \<rparr>)"
    by (simp add: TxPreEvent_case_def Let_def scan_txs_fields)
  with False show ?thesis by (simp add: scan_txs_fields scan_txs_workers)
qed

text \<open>
  C3, at a concrete input. With \<open>tx1\<close> and \<open>tx2\<close> in the set and a search under way,
  the event for \<open>tx3\<close> blocks in \<open>stopMining\<close>. The code after it, run from there,
  appends \<open>tx3\<close> and starts two workers, with the first search still running. With an
  empty set it appends \<open>tx3\<close> and starts none.
\<close>

theorem pending_tx_restarts_witness:
  "handleEvent env0 (TxPreEvent tx3) mined = Blocks
   \<and> (\<exists>w. TxPreEvent_case env0 tx3 mined = Returns w \<and> txs w = [tx1, tx2, tx3]
          \<and> workers w = workers mined @ [Spawned, Spawned] \<and> searching w = 1)
   \<and> (\<exists>w. TxPreEvent_case env0 tx3 mined0 = Returns w \<and> txs w = [tx3]
          \<and> workers w = workers mined0)"
proof -
  have m: "block mined = Some 1" "1 < length (heap mined)" "txs mined = [tx1, tx2]"
    "searching mined = 1"
    by (simp_all add: ex_defs mined_def searching_def)
  have m0: "block mined0 = Some 1" "1 < length (heap mined0)" "txs mined0 = []"
    by (simp_all add: ex_defs mined0_def)
  have b: "handleEvent env0 (TxPreEvent tx3) mined = Blocks"
    by (simp add: ex_defs mined_def handleEvent_def stopMining_def recv_def)
  from pending_tx_restarts[OF m(1,2), of env0 tx3] m(3,4)
  have "\<exists>w. TxPreEvent_case env0 tx3 mined = Returns w \<and> txs w = [tx1, tx2, tx3]
          \<and> workers w = workers mined @ [Spawned, Spawned] \<and> searching w = 1"
    by (auto simp: tx1_def tx2_def tx3_def searching_def)
  moreover from pending_tx_restarts[OF m0(1,2), of env0 tx3] m0(3)
  have "\<exists>w. TxPreEvent_case env0 tx3 mined0 = Returns w \<and> txs w = [tx3]
          \<and> workers w = workers mined0"
    by auto
  ultimately show ?thesis using b by simp
qed

subsection \<open>C4: a new head\<close>

text \<open>
  C4, what the code does. In every state the Miner can reach, when the chain gets a new
  head and the event for it is delivered, \<open>miner.txs\<close> is afterwards what it was
  before: the handler stops in \<open>stopMining\<close> (line 298) and the loops of lines 306-319,
  which would take the head's transactions out, are not reached. A transaction of the
  set that the new head includes therefore stays in the set.
\<close>

theorem new_head_leaves_set:
  "txs (run e (xs @ [OpHead b, OpEvent j (NewBlockEvent b)]) (NewDefaultMiner cb p h))
     = txs (run e xs (NewDefaultMiner cb p h))
   \<and> CurrentBlock (run e (xs @ [OpHead b, OpEvent j (NewBlockEvent b)]) (NewDefaultMiner cb p h))
     = (if panicked (run e xs (NewDefaultMiner cb p h))
        then CurrentBlock (run e xs (NewDefaultMiner cb p h)) else b)"
proof -
  let ?w = "run e xs (NewDefaultMiner cb p h)"
  have o: "all_open (step e (OpHead b) ?w)" by (rule all_open_step) (rule all_open_reach)
  have f: "step e (OpEvent j (NewBlockEvent b)) (step e (OpHead b) ?w)
        = step e (OpHead b) ?w
      \<or> step e (OpEvent j (NewBlockEvent b)) (step e (OpHead b) ?w)
        = (step e (OpHead b) ?w)\<lparr> listeners := (listeners (step e (OpHead b) ?w))[j := Blocked] \<rparr>"
    using handleEvent_blocks[OF o, of e "NewBlockEvent b"]
    by (simp add: step_event_def)
  from f show ?thesis by (auto simp: run_append)
qed

text \<open>
  C4, at a concrete input. The set holds \<open>tx1\<close> and \<open>tx2\<close> and a search is under way;
  the block \<open>newhead\<close>, which includes \<open>tx1\<close>, becomes the head and its event is
  delivered. Afterwards the set still holds \<open>tx1\<close>.
\<close>

theorem new_head_leaves_set_witness:
  "txs (run env0 [OpStart, OpListen 0, OpMine 0, OpHead newhead, OpEvent 0 (NewBlockEvent newhead)]
         (NewDefaultMiner [42] [tx1, tx2] head0)) = [tx1, tx2]
   \<and> CurrentBlock (run env0
         [OpStart, OpListen 0, OpMine 0, OpHead newhead, OpEvent 0 (NewBlockEvent newhead)]
         (NewDefaultMiner [42] [tx1, tx2] head0)) = newhead
   \<and> tx1 \<in> set (Transactions newhead)"
proof -
  have m: "txs mined = [tx1, tx2]" "\<not> panicked mined" by (simp_all add: ex_defs mined_def)
  from new_head_leaves_set[of env0 "[OpStart, OpListen 0, OpMine 0]" newhead 0 "[42]"
      "[tx1, tx2]" head0] m
  show ?thesis by (simp add: mined_def newhead_def)
qed

subsection \<open>C5: uncles\<close>



subsection \<open>C6: the block a search works on\<close>

text \<open>
  C6, counterexample. After two calls of \<open>Start\<close> two searches run, each on its own
  block, and \<open>self.block\<close> points to the block of the second. When the first search
  returns a nonce, line 408 stores it through \<open>self.block\<close>: in the block the second
  search is working on.
\<close>

theorem nonce_written_into_other_search:
  "\<not> unpatched (run env0 (twice @ [OpSearch 0 (Some [5])]) (NewDefaultMiner [42] [] head0))"
  by (simp add: ex_defs twice_def unpatched_def step_search_def mineNewBlock_end_def SetNonce_def)

text \<open>
  C6, as amended. For a Miner on which \<open>Start\<close> is called at most once, in every state
  reached: at most one worker has not returned, so that no two rounds overlap; the block
  of every running search is as it was when the search was given it; and a worker that
  runs its round hands to the search a block at a new address, which for collaborators
  that leave these lists alone has as its uncles \<open>miner.uncles\<close> when there are any
  (and those of \<open>NewBlock\<close> otherwise), as its transactions the ones
  \<open>ProcessTransactions\<close> accepted from \<open>miner.txs\<close> in nonce order, and their receipts.
\<close>

theorem template_built_and_untouched:
  assumes "count_list xs OpStart \<le> 1" and "w = run e xs (NewDefaultMiner cb p h)"
  shows "unpatched w
         \<and> length (filter live (workers w)) \<le> 1
         \<and> (keeps e \<and> \<not> panicked w \<and> i < length (workers w) \<and> workers w ! i = Spawned \<longrightarrow>
              (\<exists>b. workers (step e (OpMine i) w) ! i
                       = Searching (length (heap w)) (powQuitChan w) b
                 \<and> heap (step e (OpMine i) w) ! length (heap w) = b
                 \<and> Uncles b = (if uncles w = []
                                then Uncles (NewBlock e (CurrentBlock w) (coinbase w))
                                else uncles w)
                 \<and> Transactions b
                     = p_txs (ProcessTransactions e (template e w) (TxByNonce_sort (txs w)))
                 \<and> Receipts b
                     = p_receipts (ProcessTransactions e (template e w) (TxByNonce_sort (txs w)))))"
proof (intro conjI impI)
  from idle_new assms(1) have "single (run e xs (NewDefaultMiner cb p h))" by (rule started_once)
  with assms(2) show "unpatched w" and "length (filter live (workers w)) \<le> 1"
    by (simp_all add: single_unpatched single_def pending_def)
next
  assume a: "keeps e \<and> \<not> panicked w \<and> i < length (workers w) \<and> workers w ! i = Spawned"
  then have k: "keeps e" and i: "i < length (workers w)" and s: "workers w ! i = Spawned"
    by simp_all
  let ?b = "last (heap (mineNewBlock_begin e w))"
  from a step_mine_worker[OF i s, of e] begin_built[OF k, of w]
  have "workers (step e (OpMine i) w) ! i = Searching (length (heap w)) (powQuitChan w) ?b
      \<and> heap (step e (OpMine i) w) ! length (heap w) = ?b
      \<and> Uncles ?b = (if uncles w = [] then Uncles (NewBlock e (CurrentBlock w) (coinbase w))
                      else uncles w)
      \<and> Transactions ?b = p_txs (ProcessTransactions e (template e w) (TxByNonce_sort (txs w)))
      \<and> Receipts ?b = p_receipts (ProcessTransactions e (template e w) (TxByNonce_sort (txs w)))"
    by simp
  then show "\<exists>b. workers (step e (OpMine i) w) ! i = Searching (length (heap w)) (powQuitChan w) b
      \<and> heap (step e (OpMine i) w) ! length (heap w) = b
      \<and> Uncles b = (if uncles w = [] then Uncles (NewBlock e (CurrentBlock w) (coinbase w))
                      else uncles w)
      \<and> Transactions b = p_txs (ProcessTransactions e (template e w) (TxByNonce_sort (txs w)))
      \<and> Receipts b = p_receipts (ProcessTransactions e (template e w) (TxByNonce_sort (txs w)))"
    by (rule exI)
qed

text \<open>
  C6, witness. The run \<open>once\<close> has one \<open>Start\<close>; the search running at its end has
  its block as given. From the state \<open>started\<close> (four transactions that arrived out of
  order) the round hands over a new block with \<open>tx1\<close> and \<open>tx2\<close>, the accepted ones, in
  nonce order.
\<close>

theorem template_built_and_untouched_witness:
  "count_list once OpStart \<le> 1
   \<and> unpatched (run env0 once (NewDefaultMiner [42] [tx1, tx2] head0))
   \<and> searching (run env0 once (NewDefaultMiner [42] [tx1, tx2] head0)) = 1
   \<and> keeps env0 \<and> txs started = [tx2, tx4, tx3, tx1] \<and> length (heap started) = 1
   \<and> (\<exists>b. workers (step env0 (OpMine 0) started) ! 0 = Searching 1 (Some 1) b
         \<and> heap (step env0 (OpMine 0) started) ! 1 = b
         \<and> Uncles b = [] \<and> Transactions b = [tx1, tx2] \<and> Receipts b = [1, 1])"
proof -
  have c: "count_list once OpStart \<le> 1" by (simp add: once_def)
  have c1: "count_list [OpStart, OpListen 0, OpPool [tx4, tx1]] OpStart \<le> 1" by simp
  have k: "keeps env0" by (simp add: keeps_def env0_def)
  have s: "searching (run env0 once (NewDefaultMiner [42] [tx1, tx2] head0)) = 1"
    by (simp add: ex_defs once_def searching_def step_event_def step_search_def handleEvent_def
        stopMining_def recv_def mineNewBlock_end_def SetNonce_def)
  have st: "\<not> panicked started" "0 < length (workers started)" "workers started ! 0 = Spawned"
    "txs started = [tx2, tx4, tx3, tx1]" "length (heap started) = 1"
    "powQuitChan started = Some 1" "uncles started = []"
    "Uncles (NewBlock env0 (CurrentBlock started) (coinbase started)) = []"
    by (simp_all add: ex_defs started_def)
  have r: "p_txs (ProcessTransactions env0 (template env0 started) (TxByNonce_sort (txs started)))
             = [tx1, tx2]"
    "p_receipts (ProcessTransactions env0 (template env0 started) (TxByNonce_sort (txs started)))
             = [1, 1]"
    by (simp_all add: ex_defs started_def)
  from template_built_and_untouched[OF c refl, of env0 "[42]" "[tx1, tx2]" head0 0]
  have u: "unpatched (run env0 once (NewDefaultMiner [42] [tx1, tx2] head0))" by simp
  from template_built_and_untouched[OF c1, of started env0 "[42]" "[tx2, tx4, tx3, tx1]" head0 0]
    k st r
  have "\<exists>b. workers (step env0 (OpMine 0) started) ! 0 = Searching 1 (Some 1) b
         \<and> heap (step env0 (OpMine 0) started) ! 1 = b
         \<and> Uncles b = [] \<and> Transactions b = [tx1, tx2] \<and> Receipts b = [1, 1]"
    by (simp add: started_def)
  with c u s k st show ?thesis by simp
qed

text \<open>
  A block whose search is over can change later. Here the accepted transaction \<open>tx2\<close>
  and the one put off, \<open>tx1\<close>, lie in one array, of which the block of the first round
  holds the first entry; the mined block is refused, and the in-place sort of the second
  round (line 381) puts \<open>tx1\<close> in that place.
\<close>

lemma finished_block_rewritten:
  "Transactions (heap (run env1 [OpStart, OpListen 0, OpMine 0, OpSearch 0 (Some [5])]
                    (NewDefaultMiner [42] [tx1, tx2] head0)) ! 1) = [tx2]
   \<and> Transactions (heap (run env1 [OpStart, OpListen 0, OpMine 0, OpSearch 0 (Some [5]), OpMine 1]
                    (NewDefaultMiner [42] [tx1, tx2] head0)) ! 1) = [tx1]"
  by (simp add: ex_defs env1_def step_search_def mineNewBlock_end_def SetNonce_def)

subsection \<open>C7: Stop\<close>

text \<open>
  C7, counterexample. \<open>Stop\<close> on a Miner with a search under way returns with the search
  still running and its quit channel open; a second \<open>Stop\<close> posts \<open>Stopped\<close> once more.
\<close>

theorem stop_leaves_search_running:
  "\<exists>w1 w2. Stop mined = Returns w1 \<and> searching w1 = 1 \<and> chans w1 = [Open, Open]
     \<and> Stop w1 = Returns w2
     \<and> posted w1 = [Event Started, Event Stopped]
     \<and> posted w2 = [Event Started, Event Stopped, Event Stopped]"
  by (simp add: ex_defs mined_def Stop_def searching_def)

text \<open>
  C7, as amended. On a Miner that was started, \<open>Stop\<close> ends the subscription and posts a
  \<open>Stopped\<close> notification, and changes nothing else: the search, its channels and the
  working sets stay as they are. A second call returns as well and differs from the
  first only in that it posts the notification again. On a Miner that was never started
  \<open>Stop\<close> panics.
\<close>

theorem stop_effect:
  "(events w \<noteq> None \<longrightarrow>
      Stop w = Returns (w\<lparr> events := Some False, posted := posted w @ [Event Stopped] \<rparr>)
      \<and> Stop (w\<lparr> events := Some False, posted := posted w @ [Event Stopped] \<rparr>)
          = Returns (w\<lparr> events := Some False,
                         posted := posted w @ [Event Stopped, Event Stopped] \<rparr>))
   \<and> (events w = None \<longrightarrow> Stop w = Panics)"
  by (auto simp: Stop_def)

text \<open>C7, witness: the started Miner, and the newly constructed one.\<close>

theorem stop_effect_witness:
  "Stop mined = Returns (mined\<lparr> events := Some False, posted := [Event Started, Event Stopped] \<rparr>)
   \<and> Stop (NewDefaultMiner [42] [] head0) = Panics"
  using stop_effect[of mined] stop_effect[of "NewDefaultMiner [42] [] head0"]
  by (simp add: ex_defs mined_def)

subsection \<open>C8: the order of a round's transactions\<close>

text \<open>
  C8, counterexample. \<open>tx1\<close> (sender 7, nonce 0) arrived before \<open>tx2\<close> (sender 5,
  nonce 1). The round hands them to \<open>ProcessTransactions\<close> in the order \<open>tx1\<close>, \<open>tx2\<close>;
  the order by (sender, nonce) is \<open>tx2\<close>, \<open>tx1\<close>.
\<close>

theorem sorted_by_nonce_not_sender:
  "txs mined = [tx1, tx2]
   \<and> p_txs (round_result env0 mined) = [tx1, tx2]
   \<and> by_sender_nonce (txs mined) = [tx2, tx1]"
  by (simp add: ex_defs mined_def by_sender_nonce_def)

text \<open>
  C8, as amended. At the start of every round the transactions are ordered by nonce,
  ascending, and \<open>ProcessTransactions\<close> gets that list: the transactions of
  \<open>miner.txs\<close>, each as often as it stands there, no nonce before a smaller one. The
  sender is not a key.
\<close>

theorem round_sorted_by_nonce:
  "\<exists>ts. round_result e w = ProcessTransactions e (template e w) ts
     \<and> sorted (map txNonce ts) \<and> mset ts = mset (txs w)"
  by (rule exI[of _ "TxByNonce_sort (txs w)"]) (simp add: round_result_def TxByNonce_sort_def)

text \<open>C8, witness: four transactions that arrived out of order.\<close>

theorem round_sorted_by_nonce_witness:
  "txs started = [tx2, tx4, tx3, tx1]
   \<and> p_txs (round_result env0 started) = [tx1, tx2]
   \<and> p_unhandledTxs (round_result env0 started) = [tx3]
   \<and> p_erroneous (round_result env0 started) = [tx4]
   \<and> (\<exists>ts. round_result env0 started = ProcessTransactions env0 (template env0 started) ts
        \<and> sorted (map txNonce ts) \<and> mset ts = mset [tx2, tx4, tx3, tx1])"
proof -
  have t: "txs started = [tx2, tx4, tx3, tx1]" by (simp add: ex_defs started_def)
  from round_sorted_by_nonce[of env0 started] t
  have "\<exists>ts. round_result env0 started = ProcessTransactions env0 (template env0 started) ts
        \<and> sorted (map txNonce ts) \<and> mset ts = mset [tx2, tx4, tx3, tx1]" by simp
  moreover have "p_txs (round_result env0 started) = [tx1, tx2]
    \<and> p_unhandledTxs (round_result env0 started) = [tx3]
    \<and> p_erroneous (round_result env0 started) = [tx4]" by (simp add: ex_defs started_def)
  ultimately show ?thesis using t by simp
qed

subsection \<open>C9: errors of ProcessTransactions\<close>

text \<open>
  C9. In every round, whatever \<open>ProcessTransactions\<close> returns: the erroneous
  transactions are handed to the pool's \<open>RemoveSet\<close>; \<open>miner.txs\<close> becomes the
  accepted transactions followed by the unhandled ones; an error is appended to the
  log and has no other effect (the state is the one an error-free return would give,
  but for the log); and the worker goes on into the search.
\<close>

theorem round_partial_failure:
  "txs (mineNewBlock_begin e w) = p_txs (round_result e w) @ p_unhandledTxs (round_result e w)
   \<and> pool (mineNewBlock_begin e w) = RemoveSet e (p_erroneous (round_result e w)) (pool w)
   \<and> debuglog (mineNewBlock_begin e w)
       = debuglog w @ (case p_err (round_result e w) of None \<Rightarrow> [] | Some m \<Rightarrow> [m])
   \<and> (mineNewBlock_begin e w)\<lparr> debuglog := debuglog w \<rparr>
       = mineNewBlock_begin
           (e\<lparr> ProcessTransactions := (\<lambda>b ts. (ProcessTransactions e b ts)\<lparr> p_err := None \<rparr>) \<rparr>) w
   \<and> (\<not> panicked w \<and> i < length (workers w) \<and> workers w ! i = Spawned
      \<longrightarrow> is_Searching (workers (step e (OpMine i) w) ! i))"
  by (simp add: mineNewBlock_begin_def round_result_def template_def Let_def step_mine_def
      split: option.split)

text \<open>
  C9, witness: a round over \<open>tx2\<close>, \<open>tx4\<close>, \<open>tx3\<close>, \<open>tx1\<close>, of which \<open>tx4\<close> fails
  with an error; the pool holds \<open>tx4\<close> and \<open>tx1\<close>.
\<close>

theorem round_partial_failure_witness:
  "txs (mineNewBlock_begin env0 started) = [tx1, tx2, tx3]
   \<and> pool started = [tx4, tx1]
   \<and> pool (mineNewBlock_begin env0 started) = [tx1]
   \<and> debuglog (mineNewBlock_begin env0 started) = [''invalid'']
   \<and> is_Searching (workers (step env0 (OpMine 0) started) ! 0)"
proof -
  have "\<not> panicked started \<and> 0 < length (workers started) \<and> workers started ! 0 = Spawned"
    by (simp add: ex_defs started_def)
  with round_partial_failure[of env0 started 0] show ?thesis
    by (simp add: ex_defs started_def)
qed

subsection \<open>C10: a cancelled round\<close>

text \<open>
  C10. When a worker has run its round up to the search, \<open>miner.txs\<close> is already
  overwritten with the accepted and the unhandled transactions and the erroneous ones
  are already handed to the pool's \<open>RemoveSet\<close>. When the search then returns nil (it
  was cancelled), both stay so: nothing is put back, and the worker starts no further
  round.
\<close>

theorem cancelled_round_keeps_effects:
  assumes "\<not> panicked w" and "i < length (workers w)" and "workers w ! i = Spawned"
  shows "is_Searching (workers (run e [OpMine i] w) ! i)
         \<and> txs (run e [OpMine i] w)
           = p_txs (round_result e w) @ p_unhandledTxs (round_result e w)
         \<and> pool (run e [OpMine i] w)
           = RemoveSet e (p_erroneous (round_result e w)) (pool w)
         \<and> txs (run e [OpMine i, OpSearch i None] w)
           = p_txs (round_result e w) @ p_unhandledTxs (round_result e w)
         \<and> pool (run e [OpMine i, OpSearch i None] w)
           = RemoveSet e (p_erroneous (round_result e w)) (pool w)
         \<and> workers (run e [OpMine i, OpSearch i None] w) = (workers w)[i := Returned]"
  using assms
  by (simp add: step_mine_def step_search_def mineNewBlock_end_nil mineNewBlock_begin_def
      Let_def)

text \<open>
  C10, witness: before the round \<open>miner.txs\<close> holds four transactions and the pool two;
  after the cancelled round they hold three and one.
\<close>

theorem cancelled_round_keeps_effects_witness:
  "txs started = [tx2, tx4, tx3, tx1] \<and> pool started = [tx4, tx1]
   \<and> txs (run env0 [OpMine 0, OpSearch 0 None] started) = [tx1, tx2, tx3]
   \<and> pool (run env0 [OpMine 0, OpSearch 0 None] started) = [tx1]
   \<and> workers (run env0 [OpMine 0, OpSearch 0 None] started) = [Returned]"
proof -
  have "\<not> panicked started" and "0 < length (workers started)"
    and "workers started ! 0 = Spawned"
    by (simp_all add: ex_defs started_def)
  from cancelled_round_keeps_effects[OF this, of env0] show ?thesis
    by (simp add: ex_defs started_def)
qed

end
